theory Spec2Isabelle
  imports Complex_Main "HOL-Library.Word" "HOL-Library.Multiset" "HOL-Library.Sublist"
begin

section \<open>PassGen: the generator module and the strength analyzer\<close>

text \<open>
  The development follows the two JavaScript modules of PassGen: \<^verbatim>\<open>Generator\<close>
  (secure random integers, shuffling, passwords, PINs, passphrases, bulk export) and
  \<^verbatim>\<open>StrengthAnalyzer\<close> (pool size, strength level).

  Randomness. \<^verbatim>\<open>crypto.getRandomValues\<close> on a \<^verbatim>\<open>Uint32Array(1)\<close> is the only
  source of randomness. It is modelled as a finite supply of 32-bit draws that the
  functions consume from the front and hand on: a function returns \<open>Some (result, rest)\<close>,
  or \<open>None\<close> when the supply was used up before the function returned. A call that is
  \<open>None\<close> for every supply never returns.

  Strings are lists of 8-bit characters, read as UTF-16 code units below 256; every
  built-in character set of the program is ASCII. JavaScript numbers that hold lengths and
  counts are modelled as \<open>int\<close>, the entropy that \<open>getStrengthLevel\<close> compares with its
  thresholds as \<open>real\<close>.
\<close>

subsection \<open>Secure random integers\<close>

type_synonym draws = "32 word list"

text \<open>\<^verbatim>\<open>const maxUint32 = 0xFFFFFFFF; const limit = maxUint32 - (maxUint32 % max);\<close>\<close>

definition maxUint32 :: int where
  "maxUint32 = 4294967295"

definition rejection_limit :: "int \<Rightarrow> int" where
  "rejection_limit mx = maxUint32 - (maxUint32 mod mx)"

text \<open>\<^verbatim>\<open>do { crypto.getRandomValues(array); } while (array[0] >= limit); return array[0] % max;\<close>\<close>

fun draw_below :: "int \<Rightarrow> int \<Rightarrow> draws \<Rightarrow> (nat \<times> draws) option" where
  "draw_below limit mx [] = None"
| "draw_below limit mx (r # rs) =
     (if uint r \<ge> limit then draw_below limit mx rs
      else Some (nat (uint r mod mx), rs))"

definition getSecureRandomInt :: "int \<Rightarrow> draws \<Rightarrow> (nat \<times> draws) option" where
  "getSecureRandomInt mx rs =
     (if mx \<le> 0 then Some (0, rs)
      else draw_below (rejection_limit mx) mx rs)"

text \<open>A successful draw for a positive bound uses up at least one value of the supply.\<close>

lemma draw_below_shorter:
  "draw_below limit mx rs = Some (v, rs') \<Longrightarrow> length rs' < length rs"
  by (induction rs) (auto split: if_splits)

lemma getSecureRandomInt_shorter:
  "getSecureRandomInt mx rs = Some (v, rs') \<Longrightarrow> 0 < mx \<Longrightarrow> length rs' < length rs"
  by (simp add: getSecureRandomInt_def draw_below_shorter)

lemma getSecureRandomInt_length_le:
  "getSecureRandomInt mx rs = Some (v, rs') \<Longrightarrow> length rs' \<le> length rs"
  by (cases "mx \<le> 0") (auto simp: getSecureRandomInt_def dest: draw_below_shorter)

text \<open>
  The algorithm in the words of the specification, for comparison: the threshold is
  computed from \<open>2^32\<close>, not from \<open>2^32 - 1\<close>.
\<close>

definition uniformInt_spec :: "int \<Rightarrow> draws \<Rightarrow> (nat \<times> draws) option" where
  "uniformInt_spec exclusiveMax rs =
     (if exclusiveMax \<le> 0 then Some (0, rs)
      else draw_below (2 ^ 32 - (2 ^ 32 mod exclusiveMax)) exclusiveMax rs)"

subsection \<open>PIN generator\<close>

record pin_options =
  pin_length :: int
  noRepeatedDigits :: bool
  noSequentialDigits :: bool

definition digits :: string where
  "digits = ''0123456789''"

definition maxAttempts :: nat where
  "maxAttempts = 1000"

text \<open>\<^verbatim>\<open>parseInt\<close> on a one-character string that holds a decimal digit.\<close>

definition parseInt :: "char \<Rightarrow> int" where
  "parseInt c = int (of_char c) - 48"

text \<open>
  The check for a run of three: \<^verbatim>\<open>Math.abs(currentDigit - lastDigit) === 1\<close>, the
  buffer holds at least two digits, and the two steps are both \<open>+1\<close> or both \<open>-1\<close>.
  It is evaluated only for a non-empty buffer.
\<close>

definition forms_run :: "string \<Rightarrow> char \<Rightarrow> bool" where
  "forms_run pin digit =
     (let lastDigit = parseInt (pin ! (length pin - 1));
          currentDigit = parseInt digit
      in \<bar>currentDigit - lastDigit\<bar> = 1 \<and> length pin \<ge> 2 \<and>
         (let prevDigit = parseInt (pin ! (length pin - 2));
              diff1 = lastDigit - prevDigit;
              diff2 = currentDigit - lastDigit
          in (diff1 = 1 \<and> diff2 = 1) \<or> (diff1 = - 1 \<and> diff2 = - 1)))"

text \<open>
  The \<^verbatim>\<open>while (pin.length < opts.length && attempts < maxAttempts)\<close> loop. The index
  into \<open>digits\<close> is the result of \<open>getSecureRandomInt 10\<close> and so below 10.
\<close>

function pin_loop :: "pin_options \<Rightarrow> string \<Rightarrow> nat \<Rightarrow> draws \<Rightarrow> (string \<times> draws) option" where
  "pin_loop opts pin attempts rs =
     (if int (length pin) < pin_length opts \<and> attempts < maxAttempts then
        (case getSecureRandomInt 10 rs of
           None \<Rightarrow> None
         | Some (d, rs') \<Rightarrow>
             (let digit = digits ! d in
              if noRepeatedDigits opts \<and> digit \<in> set pin
                then pin_loop opts pin (attempts + 1) rs'
              else if noSequentialDigits opts \<and> length pin > 0 \<and> forms_run pin digit
                then pin_loop opts pin (attempts + 1) rs'
              else pin_loop opts (pin @ [digit]) 0 rs'))
      else Some (pin, rs))"
  by pat_completeness auto
termination
  by (relation "measure (\<lambda>(opts, pin, attempts, rs). length rs)")
     (auto dest: getSecureRandomInt_shorter)

declare pin_loop.simps [simp del]

text \<open>The loop never gives draws back, and an iteration uses at least one.\<close>

lemma pin_loop_length_le:
  "pin_loop opts pin attempts rs = Some (pin', rs') \<Longrightarrow> length rs' \<le> length rs"
proof (induction opts pin attempts rs rule: pin_loop.induct)
  case (1 opts pin attempts rs)
  show ?case
  proof (cases "int (length pin) < pin_length opts \<and> attempts < maxAttempts")
    case False
    with "1.prems" show ?thesis by (simp add: pin_loop.simps[of opts pin attempts rs])
  next
    case True
    then obtain d rs1 where d: "getSecureRandomInt 10 rs = Some (d, rs1)"
      using "1.prems" by (auto simp: pin_loop.simps[of opts pin attempts rs] split: option.splits)
    have le: "length rs1 \<le> length rs"
      using d by (rule getSecureRandomInt_length_le)
    show ?thesis
      using "1.IH"(1)[OF True d refl] "1.IH"(2)[OF True d refl] "1.IH"(3)[OF True d refl]
        "1.prems" True d le
      by (auto simp: pin_loop.simps[of opts pin attempts rs] Let_def split: if_splits)
  qed
qed

lemma pin_loop_short_shorter:
  assumes "pin_loop opts pin attempts rs = Some (pin', rs')"
    and "int (length pin) < pin_length opts" and "attempts < maxAttempts"
  shows "length rs' < length rs"
proof -
  obtain d rs1 where d: "getSecureRandomInt 10 rs = Some (d, rs1)"
    using assms by (auto simp: pin_loop.simps[of opts pin attempts rs] split: option.splits)
  have lt: "length rs1 < length rs"
    using d by (rule getSecureRandomInt_shorter) simp
  have "\<exists>p a. pin_loop opts p a rs1 = Some (pin', rs')"
    using assms d
    by (auto simp: pin_loop.simps[of opts pin attempts rs] Let_def split: if_splits)
  then have "length rs' \<le> length rs1"
    by (auto dest: pin_loop_length_le)
  with lt show ?thesis by simp
qed

text \<open>
  \<^verbatim>\<open>if (pin.length < opts.length) return generatePIN({...opts, noSequentialDigits: false});
  return pin.join('');\<close>
\<close>

function generatePIN :: "pin_options \<Rightarrow> draws \<Rightarrow> (string \<times> draws) option" where
  "generatePIN opts rs =
     (case pin_loop opts [] 0 rs of
        None \<Rightarrow> None
      | Some (pin, rs') \<Rightarrow>
          if int (length pin) < pin_length opts
            then generatePIN (opts\<lparr>noSequentialDigits := False\<rparr>) rs'
          else Some (pin, rs'))"
  by pat_completeness auto
termination
proof (relation "measure (\<lambda>(opts, rs). length rs)")
  show "wf (measure (\<lambda>(opts, rs). length rs))" by simp
next
  fix opts :: pin_options and rs :: draws and x2 pin rs'
  assume loop: "pin_loop opts [] 0 rs = Some x2" and x2: "(pin, rs') = x2"
    and short: "int (length pin) < pin_length opts"
  have "pin_loop opts [] 0 rs = Some (pin, rs')" using loop x2 by simp
  moreover have "int (length ([]::string)) < pin_length opts" using short by simp
  ultimately have "length rs' < length rs"
    by (rule pin_loop_short_shorter) (simp add: maxAttempts_def)
  then show "((opts\<lparr>noSequentialDigits := False\<rparr>, rs'), opts, rs)
      \<in> measure (\<lambda>(opts, rs). length rs)"
    by simp
qed

declare generatePIN.simps [simp del]

subsection \<open>Character sets\<close>

text \<open>
  \<^verbatim>\<open>CHARS = { uppercase, lowercase, numbers, symbols, ambiguous: '0O1lI|', brackets }\<close>.
  The brackets set is \<^verbatim>\<open>{ } [ ] ( ) \ / ' "\<close>.
\<close>

definition CHARS_uppercase :: string where
  "CHARS_uppercase = ''ABCDEFGHIJKLMNOPQRSTUVWXYZ''"

definition CHARS_lowercase :: string where
  "CHARS_lowercase = ''abcdefghijklmnopqrstuvwxyz''"

definition CHARS_numbers :: string where
  "CHARS_numbers = ''0123456789''"

definition CHARS_symbols :: string where
  "CHARS_symbols = ''!@#$%^&*()_+-=[]{}|;:,.<>?''"

definition CHARS_ambiguous :: string where
  "CHARS_ambiguous = ''0O1lI|''"

definition CHARS_brackets :: string where
  "CHARS_brackets = ''{}[]()'' @ [CHR 0x5C, CHR ''/'', CHR 0x27, CHR 0x22]"

text \<open>\<^verbatim>\<open>str.split('').filter(char => !charsToRemove.includes(char)).join('')\<close>\<close>

definition removeChars :: "string \<Rightarrow> string \<Rightarrow> string" where
  "removeChars str charsToRemove = filter (\<lambda>c. c \<notin> set charsToRemove) str"

subsection \<open>Indexing and joining as JavaScript does\<close>

text \<open>
  \<^verbatim>\<open>s[i]\<close> is \<^verbatim>\<open>undefined\<close> outside the string; \<open>None\<close> stands for \<^verbatim>\<open>undefined\<close>.
  \<^verbatim>\<open>Array.prototype.join\<close> renders an \<^verbatim>\<open>undefined\<close> element as the empty string,
  while \<^verbatim>\<open>undefined + 'abc'\<close> is \<^verbatim>\<open>'undefinedabc'\<close>.
\<close>

definition char_at :: "string \<Rightarrow> nat \<Rightarrow> char option" where
  "char_at s i = (if i < length s then Some (s ! i) else None)"

definition join_chars :: "char option list \<Rightarrow> string" where
  "join_chars xs = concat (map (\<lambda>x. case x of None \<Rightarrow> [] | Some c \<Rightarrow> [c]) xs)"

definition to_string :: "char option \<Rightarrow> string" where
  "to_string x = (case x of None \<Rightarrow> ''undefined'' | Some c \<Rightarrow> [c])"

subsection \<open>Fisher-Yates shuffle\<close>

text \<open>
  \<^verbatim>\<open>for (let i = shuffled.length - 1; i > 0; i--) { const j = getSecureRandomInt(i + 1);
  [shuffled[i], shuffled[j]] = [shuffled[j], shuffled[i]]; }\<close>
  Here \<open>j \<le> i < length shuffled\<close>, so both reads are inside the array.
\<close>

fun shuffle_from :: "nat \<Rightarrow> 'a list \<Rightarrow> draws \<Rightarrow> ('a list \<times> draws) option" where
  "shuffle_from 0 shuffled rs = Some (shuffled, rs)"
| "shuffle_from (Suc i) shuffled rs =
     (case getSecureRandomInt (int (Suc i) + 1) rs of
        None \<Rightarrow> None
      | Some (j, rs') \<Rightarrow>
          shuffle_from i (shuffled[Suc i := shuffled ! j, j := shuffled ! Suc i]) rs')"

definition secureShuffleArray :: "'a list \<Rightarrow> draws \<Rightarrow> ('a list \<times> draws) option" where
  "secureShuffleArray array rs = shuffle_from (length array - 1) array rs"

subsection \<open>Password generator\<close>

record password_options =
  pw_length :: int
  uppercase :: bool
  lowercase :: bool
  numbers :: bool
  symbols :: bool
  excludeAmbiguous :: bool
  excludeBrackets :: bool
  customSymbols :: "string option"
  minNumbers :: int
  minSymbols :: int
  beginWithLetter :: bool
  noRepeating :: bool

text \<open>The character set of each class after its own filter, as in the four \<^verbatim>\<open>if\<close> blocks.\<close>

definition uppercase_chars :: "password_options \<Rightarrow> string" where
  "uppercase_chars opts =
     (if excludeAmbiguous opts then removeChars CHARS_uppercase CHARS_ambiguous
      else CHARS_uppercase)"

definition lowercase_chars :: "password_options \<Rightarrow> string" where
  "lowercase_chars opts =
     (if excludeAmbiguous opts then removeChars CHARS_lowercase CHARS_ambiguous
      else CHARS_lowercase)"

definition numbers_chars :: "password_options \<Rightarrow> string" where
  "numbers_chars opts =
     (if excludeAmbiguous opts then removeChars CHARS_numbers CHARS_ambiguous
      else CHARS_numbers)"

text \<open>
  \<^verbatim>\<open>let chars = opts.customSymbols || CHARS.symbols;
  if (opts.excludeBrackets) chars = removeChars(chars, CHARS.brackets);\<close>
  A \<^verbatim>\<open>null\<close> or empty \<^verbatim>\<open>customSymbols\<close> selects the default set. The ambiguous
  characters are not removed from this class.
\<close>

definition symbols_chars :: "password_options \<Rightarrow> string" where
  "symbols_chars opts =
     (let chars = (case customSymbols opts of
                     None \<Rightarrow> CHARS_symbols
                   | Some s \<Rightarrow> if s = [] then CHARS_symbols else s)
      in if excludeBrackets opts then removeChars chars CHARS_brackets else chars)"

definition charPool :: "password_options \<Rightarrow> string" where
  "charPool opts =
     (let pool = (if uppercase opts then uppercase_chars opts else [])
               @ (if lowercase opts then lowercase_chars opts else [])
               @ (if numbers opts then numbers_chars opts else [])
               @ (if symbols opts then symbols_chars opts else [])
      in if length pool = 0 then CHARS_lowercase else pool)"

text \<open>
  \<^verbatim>\<open>for (let i = 0; i < n; i++) requiredChars.push(chars[getSecureRandomInt(chars.length)]);\<close>
\<close>

fun draw_required :: "nat \<Rightarrow> string \<Rightarrow> draws \<Rightarrow> (char option list \<times> draws) option" where
  "draw_required 0 chars rs = Some ([], rs)"
| "draw_required (Suc n) chars rs =
     (case getSecureRandomInt (int (length chars)) rs of
        None \<Rightarrow> None
      | Some (i, rs') \<Rightarrow>
          (case draw_required n chars rs' of
             None \<Rightarrow> None
           | Some (cs, rs'') \<Rightarrow> Some (char_at chars i # cs, rs'')))"

definition requiredChars :: "password_options \<Rightarrow> draws \<Rightarrow> (char option list \<times> draws) option" where
  "requiredChars opts rs =
     (case (if numbers opts then draw_required (nat (minNumbers opts)) (numbers_chars opts) rs
            else Some ([], rs)) of
        None \<Rightarrow> None
      | Some (ns, rs') \<Rightarrow>
          (case (if symbols opts then draw_required (nat (minSymbols opts)) (symbols_chars opts) rs'
                 else Some ([], rs')) of
             None \<Rightarrow> None
           | Some (ss, rs'') \<Rightarrow> Some (ns @ ss, rs'')))"

text \<open>\<^verbatim>\<open>if (opts.noRepeating && opts.length > charPool.length) opts.length = charPool.length;\<close>\<close>

definition target_length :: "password_options \<Rightarrow> int" where
  "target_length opts =
     (if noRepeating opts \<and> pw_length opts > int (length (charPool opts))
      then int (length (charPool opts)) else pw_length opts)"

definition letterPool :: "password_options \<Rightarrow> string" where
  "letterPool opts =
     (if uppercase opts
        then (if excludeAmbiguous opts then removeChars CHARS_uppercase CHARS_ambiguous
              else CHARS_uppercase)
      else [])
     @ (if lowercase opts
          then (if excludeAmbiguous opts then removeChars CHARS_lowercase CHARS_ambiguous
                else CHARS_lowercase)
        else [])"

text \<open>
  The state of the buffer is the pair of \<^verbatim>\<open>password\<close> and \<^verbatim>\<open>usedChars\<close>.
  Seeding the first character: only when \<^verbatim>\<open>beginWithLetter\<close> is set and the letter pool
  is not empty.
\<close>

type_synonym buffer = "char option list \<times> char option set"

definition seed_first :: "password_options \<Rightarrow> draws \<Rightarrow> (buffer \<times> draws) option" where
  "seed_first opts rs =
     (if beginWithLetter opts \<and> length (letterPool opts) > 0 then
        (case getSecureRandomInt (int (length (letterPool opts))) rs of
           None \<Rightarrow> None
         | Some (i, rs') \<Rightarrow>
             (let firstChar = char_at (letterPool opts) i
              in Some (([firstChar], if noRepeating opts then {firstChar} else {}), rs')))
      else Some (([], {}), rs))"

text \<open>
  \<^verbatim>\<open>for (const char of requiredChars) if (password.length < opts.length)
  if (!opts.noRepeating || !usedChars.has(char)) { password.push(char); ... }\<close>
\<close>

fun add_required :: "int \<Rightarrow> bool \<Rightarrow> char option list \<Rightarrow> buffer \<Rightarrow> buffer" where
  "add_required len nr [] (password, usedChars) = (password, usedChars)"
| "add_required len nr (c # cs) (password, usedChars) =
     (if int (length password) < len \<and> (\<not> nr \<or> c \<notin> usedChars)
        then add_required len nr cs
               (password @ [c], if nr then insert c usedChars else usedChars)
      else add_required len nr cs (password, usedChars))"

text \<open>
  \<^verbatim>\<open>while (password.length < opts.length && availablePool.length > 0) { ... }\<close>;
  \<^verbatim>\<open>availablePool.splice(index, 1)\<close> removes the element at \<open>index\<close>.
\<close>

function fill_remaining ::
  "int \<Rightarrow> bool \<Rightarrow> char option list \<Rightarrow> string \<Rightarrow> draws \<Rightarrow> (char option list \<times> draws) option" where
  "fill_remaining len nr password availablePool rs =
     (if int (length password) < len \<and> length availablePool > 0 then
        (case getSecureRandomInt (int (length availablePool)) rs of
           None \<Rightarrow> None
         | Some (index, rs') \<Rightarrow>
             fill_remaining len nr (password @ [char_at availablePool index])
               (if nr then take index availablePool @ drop (Suc index) availablePool
                else availablePool) rs')
      else Some (password, rs))"
  by pat_completeness auto
termination
  by (relation "measure (\<lambda>(len, nr, password, availablePool, rs). nat (len - int (length password)))")
     auto

declare fill_remaining.simps [simp del]

definition generatePassword :: "password_options \<Rightarrow> draws \<Rightarrow> (string \<times> draws) option" where
  "generatePassword opts rs =
     (case requiredChars opts rs of
        None \<Rightarrow> None
      | Some (required, rs1) \<Rightarrow>
          (case seed_first opts rs1 of
             None \<Rightarrow> None
           | Some (seeded, rs2) \<Rightarrow>
               (let (password1, usedChars) =
                      add_required (target_length opts) (noRepeating opts) required seeded;
                    availablePool =
                      (if noRepeating opts
                         then filter (\<lambda>c. Some c \<notin> usedChars) (charPool opts)
                       else charPool opts)
                in case fill_remaining (target_length opts) (noRepeating opts)
                          password1 availablePool rs2 of
                     None \<Rightarrow> None
                   | Some (password, rs3) \<Rightarrow>
                       if beginWithLetter opts \<and> length password > 1 then
                         (case secureShuffleArray (tl password) rs3 of
                            None \<Rightarrow> None
                          | Some (rest, rs4) \<Rightarrow>
                              Some (to_string (hd password) @ join_chars rest, rs4))
                       else
                         (case secureShuffleArray password rs3 of
                            None \<Rightarrow> None
                          | Some (shuffled, rs4) \<Rightarrow> Some (join_chars shuffled, rs4)))))"

text \<open>A letter is a character of the uppercase or of the lowercase set.\<close>

definition is_letter :: "char \<Rightarrow> bool" where
  "is_letter c \<longleftrightarrow> c \<in> set CHARS_uppercase \<or> c \<in> set CHARS_lowercase"

subsection \<open>Numbers as decimal strings, joining with a separator\<close>

text \<open>\<^verbatim>\<open>number.toString()\<close> and the \<^verbatim>\<open>${i + 1}\<close> of a template, for a natural number.\<close>

function toString :: "nat \<Rightarrow> string" where
  "toString n =
     (if n < 10 then [char_of (48 + n)]
      else toString (n div 10) @ [char_of (48 + n mod 10)])"
  by pat_completeness auto
termination
  by (relation "measure (\<lambda>n. n)") auto

declare toString.simps [simp del]

text \<open>\<^verbatim>\<open>Array.prototype.join(separator)\<close> on an array of strings.\<close>

fun join_with :: "'a list \<Rightarrow> 'a list list \<Rightarrow> 'a list" where
  "join_with sep [] = []"
| "join_with sep [w] = w"
| "join_with sep (w # v # ws) = w @ sep @ join_with sep (v # ws)"

subsection \<open>Upper case\<close>

text \<open>
  A string of the program is a sequence of UTF-16 code units; the strings that enter the
  model hold code units below 256 and are lists of 8-bit characters. \<^verbatim>\<open>toUpperCase\<close>
  leaves that range: its result is a list of code units, written as natural numbers.
  \<open>js\<close> reads an 8-bit string as its code units.
\<close>

type_synonym js_string = "nat list"

definition js :: "string \<Rightarrow> js_string" where
  "js s = map of_char s"

text \<open>
  \<^verbatim>\<open>String.prototype.toUpperCase\<close> on one code unit below 256: \<open>a\<close> to \<open>z\<close> and the
  letters \<open>0xE0\<close> to \<open>0xFE\<close> (without the division sign \<open>0xF7\<close>) move down by 32, the
  micro sign \<open>0xB5\<close> becomes \<open>U+039C\<close>, the sharp s \<open>0xDF\<close> becomes \<open>SS\<close>, \<open>0xFF\<close> becomes
  \<open>U+0178\<close>, and every other code unit stays.
\<close>

definition toUpperCase_unit :: "char \<Rightarrow> js_string" where
  "toUpperCase_unit c =
     (let n = (of_char c :: nat) in
      if 97 \<le> n \<and> n \<le> 122 then [n - 32]
      else if n = 181 then [924]
      else if n = 223 then [83, 83]
      else if 224 \<le> n \<and> n \<le> 254 \<and> n \<noteq> 247 then [n - 32]
      else if n = 255 then [376]
      else [n])"

definition toUpperCase :: "string \<Rightarrow> js_string" where
  "toUpperCase s = concat (map toUpperCase_unit s)"

subsection \<open>Passphrase generator\<close>

record passphrase_options =
  wordCount :: int
  separator :: string
  capitalize :: string
  includeNumber :: bool

text \<open>
  The embedded word list \<^verbatim>\<open>EFF_WORDLIST\<close> is a global of another script and is a
  parameter here: \<open>None\<close> when the global is undefined, otherwise the list of words.
\<close>

text \<open>
  \<^verbatim>\<open>switch (opts.capitalize) { case 'first': return word.charAt(0).toUpperCase() + word.slice(1);
  case 'all': return word.toUpperCase(); default: return word; }\<close>
\<close>

definition capitalize_word :: "string \<Rightarrow> string \<Rightarrow> js_string" where
  "capitalize_word cap word =
     (if cap = ''first'' then toUpperCase (take 1 word) @ js (drop 1 word)
      else if cap = ''all'' then toUpperCase word
      else js word)"

text \<open>
  \<^verbatim>\<open>for (let i = 0; i < opts.wordCount; i++) words.push(EFF_WORDLIST[getSecureRandomInt(EFF_WORDLIST.length)]);\<close>
  The list is not empty here, so the index is inside it.
\<close>

fun draw_words :: "nat \<Rightarrow> string list \<Rightarrow> draws \<Rightarrow> (string list \<times> draws) option" where
  "draw_words 0 wl rs = Some ([], rs)"
| "draw_words (Suc n) wl rs =
     (case getSecureRandomInt (int (length wl)) rs of
        None \<Rightarrow> None
      | Some (i, rs') \<Rightarrow>
          (case draw_words n wl rs' of
             None \<Rightarrow> None
           | Some (ws, rs'') \<Rightarrow> Some (wl ! i # ws, rs'')))"

definition error_loading_wordlist :: string where
  "error_loading_wordlist = ''error-loading-wordlist''"

definition generatePassphrase ::
  "string list option \<Rightarrow> passphrase_options \<Rightarrow> draws \<Rightarrow> (js_string \<times> draws) option" where
  "generatePassphrase EFF_WORDLIST opts rs =
     (case EFF_WORDLIST of
        None \<Rightarrow> Some (js error_loading_wordlist, rs)
      | Some wl \<Rightarrow>
          if length wl = 0 then Some (js error_loading_wordlist, rs)
          else
            (case draw_words (nat (wordCount opts)) wl rs of
               None \<Rightarrow> None
             | Some (drawn, rs1) \<Rightarrow>
                 (let words = map (capitalize_word (capitalize opts)) drawn in
                  if includeNumber opts then
                    (case getSecureRandomInt (int (length words) + 1) rs1 of
                       None \<Rightarrow> None
                     | Some (position, rs2) \<Rightarrow>
                         (case getSecureRandomInt 100 rs2 of
                            None \<Rightarrow> None
                          | Some (number, rs3) \<Rightarrow>
                              Some (join_with (js (separator opts))
                                      (take position words @ [js (toString number)]
                                       @ drop position words), rs3)))
                  else Some (join_with (js (separator opts)) words, rs1))))"

subsection \<open>Bulk generation and export\<close>

text \<open>\<^verbatim>\<open>for (let i = 0; i < count; i++) passwords.push(generatePassword(options));\<close>\<close>

fun bulk_loop :: "nat \<Rightarrow> password_options \<Rightarrow> draws \<Rightarrow> (string list \<times> draws) option" where
  "bulk_loop 0 opts rs = Some ([], rs)"
| "bulk_loop (Suc n) opts rs =
     (case generatePassword opts rs of
        None \<Rightarrow> None
      | Some (pwd, rs') \<Rightarrow>
          (case bulk_loop n opts rs' of
             None \<Rightarrow> None
           | Some (pwds, rs'') \<Rightarrow> Some (pwd # pwds, rs'')))"

definition generateBulk :: "int \<Rightarrow> password_options \<Rightarrow> draws \<Rightarrow> (string list \<times> draws) option" where
  "generateBulk cnt opts rs = bulk_loop (nat cnt) opts rs"

text \<open>
  \<^verbatim>\<open>const header = 'Index,Password';
  const rows = passwords.map((pwd, i) => `${i + 1},"${pwd}"`);
  return [header, ...rows].join('\n');\<close>
\<close>

definition line_feed :: char where
  "line_feed = CHR 0x0A"

definition double_quote :: char where
  "double_quote = CHR 0x22"

definition csv_row :: "nat \<Rightarrow> string \<Rightarrow> string" where
  "csv_row i pwd = toString (i + 1) @ '','' @ [double_quote] @ pwd @ [double_quote]"

definition toCSV :: "string list \<Rightarrow> string" where
  "toCSV passwords =
     join_with [line_feed]
       (''Index,Password'' # map (\<lambda>(i, pwd). csv_row i pwd) (enumerate 0 passwords))"

subsection \<open>Pool size\<close>

text \<open>
  The four flags of \<^verbatim>\<open>calculatePoolSize\<close> and one step of its loop: the tests
  \<^verbatim>\<open>/[a-z]/\<close>, \<^verbatim>\<open>/[A-Z]/\<close>, \<^verbatim>\<open>/[0-9]/\<close> in this order, anything else is a symbol.
\<close>

record class_flags =
  hasLower :: bool
  hasUpper :: bool
  hasDigits :: bool
  hasSymbols :: bool

definition is_lower :: "char \<Rightarrow> bool" where
  "is_lower c \<longleftrightarrow> 97 \<le> (of_char c :: nat) \<and> (of_char c :: nat) \<le> 122"

definition is_upper :: "char \<Rightarrow> bool" where
  "is_upper c \<longleftrightarrow> 65 \<le> (of_char c :: nat) \<and> (of_char c :: nat) \<le> 90"

definition is_digit :: "char \<Rightarrow> bool" where
  "is_digit c \<longleftrightarrow> 48 \<le> (of_char c :: nat) \<and> (of_char c :: nat) \<le> 57"

definition scan_char :: "char \<Rightarrow> class_flags \<Rightarrow> class_flags" where
  "scan_char c f =
     (if is_lower c then f\<lparr>hasLower := True\<rparr>
      else if is_upper c then f\<lparr>hasUpper := True\<rparr>
      else if is_digit c then f\<lparr>hasDigits := True\<rparr>
      else f\<lparr>hasSymbols := True\<rparr>)"

definition calculatePoolSize :: "string \<Rightarrow> nat" where
  "calculatePoolSize password =
     (let f = fold scan_char password
                \<lparr>hasLower = False, hasUpper = False, hasDigits = False, hasSymbols = False\<rparr>;
          poolSize = (if hasLower f then 26 else 0) + (if hasUpper f then 26 else 0)
                   + (if hasDigits f then 10 else 0) + (if hasSymbols f then 32 else 0)
      in if poolSize = 0 then 1 else poolSize)"

text \<open>
  The pool size in the words of the specification: the sum of the nominal sizes of the
  character classes present in the credential, and at least 1.
\<close>

definition nominal_pool_size :: "string \<Rightarrow> nat" where
  "nominal_pool_size password =
     max 1
       ((if \<exists>c \<in> set password. is_lower c then 26 else 0)
      + (if \<exists>c \<in> set password. is_upper c then 26 else 0)
      + (if \<exists>c \<in> set password. is_digit c then 10 else 0)
      + (if \<exists>c \<in> set password. \<not> is_lower c \<and> \<not> is_upper c \<and> \<not> is_digit c then 32 else 0))"

subsection \<open>Strength levels\<close>

text \<open>
  \<^verbatim>\<open>LEVELS = { WEAK: {.., minEntropy: 0}, FAIR: {.., 30}, GOOD: {.., 50},
  STRONG: {.., 70}, VERY_STRONG: {.., 90} }\<close>
\<close>

datatype level = WEAK | FAIR | GOOD | STRONG | VERY_STRONG

record level_info =
  name :: string
  key :: string
  minEntropy :: real

fun LEVELS :: "level \<Rightarrow> level_info" where
  "LEVELS WEAK = \<lparr>name = ''Weak'', key = ''weak'', minEntropy = 0\<rparr>"
| "LEVELS FAIR = \<lparr>name = ''Fair'', key = ''fair'', minEntropy = 30\<rparr>"
| "LEVELS GOOD = \<lparr>name = ''Good'', key = ''good'', minEntropy = 50\<rparr>"
| "LEVELS STRONG = \<lparr>name = ''Strong'', key = ''strong'', minEntropy = 70\<rparr>"
| "LEVELS VERY_STRONG = \<lparr>name = ''Very Strong'', key = ''very-strong'', minEntropy = 90\<rparr>"

definition getStrengthLevel :: "real \<Rightarrow> level" where
  "getStrengthLevel entropy =
     (if entropy \<ge> minEntropy (LEVELS VERY_STRONG) then VERY_STRONG
      else if entropy \<ge> minEntropy (LEVELS STRONG) then STRONG
      else if entropy \<ge> minEntropy (LEVELS GOOD) then GOOD
      else if entropy \<ge> minEntropy (LEVELS FAIR) then FAIR
      else WEAK)"

text \<open>The position of a level in the order Weak < Fair < Good < Strong < Very Strong.\<close>

fun level_rank :: "level \<Rightarrow> nat" where
  "level_rank WEAK = 0"
| "level_rank FAIR = 1"
| "level_rank GOOD = 2"
| "level_rank STRONG = 3"
| "level_rank VERY_STRONG = 4"

section \<open>Properties\<close>

subsection \<open>Secure random integers\<close>

lemma draw_below_dropWhile:
  "draw_below limit mx rs =
     (case dropWhile (\<lambda>r. uint r \<ge> limit) rs of
        [] \<Rightarrow> None
      | r # rs' \<Rightarrow> Some (nat (uint r mod mx), rs'))"
  by (induction rs) simp_all

lemma draw_below_less:
  "draw_below limit mx rs = Some (v, rs') \<Longrightarrow> 0 < mx \<Longrightarrow> v < nat mx"
  by (induction rs) (auto split: if_splits simp: nat_less_iff)

lemma getSecureRandomInt_less:
  "getSecureRandomInt mx rs = Some (v, rs') \<Longrightarrow> 0 < mx \<Longrightarrow> v < nat mx"
  by (simp add: getSecureRandomInt_def draw_below_less)

text \<open>
  C2, as stated: the threshold is \<open>2^32 - (2^32 mod exclusiveMax)\<close>. The code computes it
  from \<open>0xFFFFFFFF\<close>. For \<open>max = 2\<close> the code's threshold is \<open>4294967294\<close> and the
  stated one is \<open>4294967296\<close>: the draw \<open>4294967294\<close> is redrawn by the code and accepted
  by the stated algorithm, so the two return different values from the same draws.
\<close>

theorem getSecureRandomInt_differs_from_spec_limit:
  "getSecureRandomInt 2 [4294967294, 1] = Some (1, [])
   \<and> uniformInt_spec 2 [4294967294, 1] = Some (0, [1])"
  by (simp add: getSecureRandomInt_def uniformInt_spec_def rejection_limit_def maxUint32_def)

text \<open>
  C2, amended: for every \<open>max \<ge> 1\<close>, \<open>getSecureRandomInt\<close> computes
  \<open>limit = (2^32 - 1) - ((2^32 - 1) mod max)\<close>, skips every draw that is \<open>\<ge> limit\<close> and
  returns the first draw below it modulo \<open>max\<close>, a value in \<open>[0, max)\<close>; for every
  \<open>max \<le> 0\<close> it returns 0 without drawing.
\<close>

theorem getSecureRandomInt_rejection_sampling:
  "getSecureRandomInt mx rs =
     (if mx \<le> 0 then Some (0, rs)
      else case dropWhile (\<lambda>r. uint r \<ge> (2 ^ 32 - 1) - ((2 ^ 32 - 1) mod mx)) rs of
             [] \<Rightarrow> None
           | r # rs' \<Rightarrow> Some (nat (uint r mod mx), rs'))
   \<and> (1 \<le> mx \<and> getSecureRandomInt mx rs = Some (v, rest) \<longrightarrow> v < nat mx)"
proof (intro conjI impI)
  show "getSecureRandomInt mx rs =
     (if mx \<le> 0 then Some (0, rs)
      else case dropWhile (\<lambda>r. uint r \<ge> (2 ^ 32 - 1) - ((2 ^ 32 - 1) mod mx)) rs of
             [] \<Rightarrow> None
           | r # rs' \<Rightarrow> Some (nat (uint r mod mx), rs'))"
    unfolding getSecureRandomInt_def rejection_limit_def maxUint32_def draw_below_dropWhile
    by simp
  assume "1 \<le> mx \<and> getSecureRandomInt mx rs = Some (v, rest)"
  then show "v < nat mx" using getSecureRandomInt_less[of mx rs v rest] by simp
qed

theorem getSecureRandomInt_rejection_sampling_witness:
  "getSecureRandomInt 10 [4294967295, 4294967290, 57, 3] = Some (7, [3])
   \<and> (7::nat) < nat 10
   \<and> getSecureRandomInt 0 [5] = Some (0, [5])"
  using getSecureRandomInt_rejection_sampling [of 10 "[4294967295, 4294967290, 57, 3]" 7 "[3]"]
    getSecureRandomInt_rejection_sampling [of 0 "[5]" 0 "[5]"]
  by (simp add: getSecureRandomInt_def rejection_limit_def maxUint32_def)

text \<open>Counting the draws that yield a given residue.\<close>

lemma count_residue:
  fixes m q k :: int
  assumes "0 < m" "0 \<le> q" "0 \<le> k" "k < m"
  shows "card {v. 0 \<le> v \<and> v < q * m \<and> v mod m = k} = nat q"
proof -
  have "{v. 0 \<le> v \<and> v < q * m \<and> v mod m = k} = (\<lambda>j. j * m + k) ` {0..<q}" (is "?A = ?B")
  proof (intro set_eqI iffI)
    fix v assume "v \<in> ?A"
    then have v: "0 \<le> v" "v < q * m" "v mod m = k" by auto
    have split: "v = (v div m) * m + k" using v(3) by (metis div_mult_mod_eq)
    moreover have "0 \<le> v div m" using v(1) assms(1) by (simp add: pos_imp_zdiv_nonneg_iff)
    moreover have "v div m < q"
    proof (rule ccontr)
      assume "\<not> v div m < q"
      then have "q * m \<le> (v div m) * m" using assms(1) by (simp add: mult_right_mono)
      also have "\<dots> \<le> v" using assms(3) split by linarith
      finally show False using v(2) by simp
    qed
    ultimately show "v \<in> ?B" by (intro image_eqI[where x="v div m"]) auto
  next
    fix v assume "v \<in> ?B"
    then obtain j where j: "0 \<le> j" "j < q" "v = j * m + k" by auto
    have "j * m + k < q * m"
    proof -
      have "j + 1 \<le> q" using j by simp
      then have "(j + 1) * m \<le> q * m" using assms(1) by (simp add: mult_right_mono)
      then show ?thesis using assms by (simp add: algebra_simps)
    qed
    moreover have "0 \<le> j * m + k" using j assms by simp
    moreover have "(j * m + k) mod m = k" using assms by simp
    ultimately show "v \<in> ?A" using j by simp
  qed
  moreover have "inj_on (\<lambda>j. j * m + k) {0..<q}"
    using assms(1) by (auto simp: inj_on_def)
  ultimately show ?thesis by (simp add: card_image)
qed

lemma card_accepted_draws:
  fixes m k L :: int
  assumes "0 < m" "0 \<le> k" "k < m" "m dvd L" "0 \<le> L" "L \<le> 2 ^ 32"
  shows "card {r :: 32 word. uint r < L \<and> uint r mod m = k} = nat (L div m)"
proof -
  let ?S = "{r :: 32 word. uint r < L \<and> uint r mod m = k}"
  let ?V = "{v. 0 \<le> v \<and> v < L \<and> v mod m = k}"
  have L: "(L div m) * m = L" using assms(4) by simp
  have q: "0 \<le> L div m" using assms by (simp add: pos_imp_zdiv_nonneg_iff)
  have img: "uint ` ?S = ?V"
  proof (intro set_eqI iffI)
    fix v assume "v \<in> uint ` ?S"
    then show "v \<in> ?V" by auto
  next
    fix v assume "v \<in> ?V"
    then have v: "0 \<le> v" "v < L" "v mod m = k" by auto
    define w :: "32 word" where "w = word_of_int v"
    have "v < 2 ^ LENGTH(32)" using v(2) assms(6) by simp
    then have uw: "uint w = v"
      unfolding w_def using v(1) by (simp only: uint_word_of_int mod_pos_pos_trivial)
    have "w \<in> ?S" using v(2,3) by (simp only: mem_Collect_eq uw simp_thms)
    then have "uint w \<in> uint ` ?S" by (rule imageI)
    then show "v \<in> uint ` ?S" unfolding uw .
  qed
  have "inj_on uint ?S" by (rule inj_onI) (simp only: word_uint_eq_iff)
  then have "card (uint ` ?S) = card ?S" by (rule card_image)
  then have "card ?S = card ?V" unfolding img by (rule sym)
  also have "\<dots> = card {v. 0 \<le> v \<and> v < (L div m) * m \<and> v mod m = k}"
    by (simp only: L)
  also have "\<dots> = nat (L div m)"
    using count_residue[OF assms(1) q assms(2,3)] .
  finally show ?thesis .
qed

lemma rejection_limit_props:
  assumes "1 \<le> mx" "mx \<le> 2 ^ 32 - 1"
  shows "0 < rejection_limit mx" "mx dvd rejection_limit mx" "rejection_limit mx \<le> 2 ^ 32"
proof -
  have "maxUint32 mod mx < mx" using assms(1) by simp
  moreover have "mx \<le> maxUint32" using assms(2) by (simp add: maxUint32_def)
  ultimately show "0 < rejection_limit mx" by (simp add: rejection_limit_def)
  show "mx dvd rejection_limit mx"
    by (simp add: rejection_limit_def dvd_eq_mod_eq_0 mod_diff_left_eq[symmetric])
  have "0 \<le> maxUint32 mod mx" using assms(1) by simp
  then show "rejection_limit mx \<le> 2 ^ 32" by (simp add: rejection_limit_def maxUint32_def)
qed

text \<open>
  C10: for every \<open>max\<close> with \<open>1 \<le> max \<le> 2^32 - 1\<close> the threshold that the code
  computes, \<open>(2^32 - 1) - ((2^32 - 1) mod max)\<close>, is a positive multiple of \<open>max\<close>, and
  every result \<open>k\<close> in \<open>[0, max)\<close> is produced by the same number \<open>limit div max\<close> of the
  \<open>2^32\<close> possible values of a draw: given that a draw is accepted, the result is exactly
  uniform.
\<close>

theorem getSecureRandomInt_unbiased:
  assumes "1 \<le> mx" "mx \<le> 2 ^ 32 - 1" "k < nat mx"
  shows "rejection_limit mx = (2 ^ 32 - 1) - ((2 ^ 32 - 1) mod mx)
    \<and> 0 < rejection_limit mx \<and> mx dvd rejection_limit mx
    \<and> card {r. getSecureRandomInt mx [r] = Some (k, [])} = nat (rejection_limit mx div mx)"
proof (intro conjI)
  note lim = rejection_limit_props[OF assms(1,2)]
  show "rejection_limit mx = (2 ^ 32 - 1) - ((2 ^ 32 - 1) mod mx)"
    by (simp add: rejection_limit_def maxUint32_def)
  show "0 < rejection_limit mx" by (rule lim(1))
  show "mx dvd rejection_limit mx" by (rule lim(2))
  have accept: "getSecureRandomInt mx [r] = Some (k, [])
      \<longleftrightarrow> uint r < rejection_limit mx \<and> uint r mod mx = int k" for r
    using assms(1) by (auto simp: getSecureRandomInt_def nat_eq_iff)
  have "card {r :: 32 word. uint r < rejection_limit mx \<and> uint r mod mx = int k}
        = nat (rejection_limit mx div mx)"
  proof (rule card_accepted_draws)
    show "0 < mx" using assms(1) by simp
    show "0 \<le> int k" by simp
    show "int k < mx" using assms(3) by simp
    show "mx dvd rejection_limit mx" by (rule lim(2))
    show "0 \<le> rejection_limit mx" using lim(1) by simp
    show "rejection_limit mx \<le> 2 ^ 32" by (rule lim(3))
  qed
  then show "card {r. getSecureRandomInt mx [r] = Some (k, [])} = nat (rejection_limit mx div mx)"
    by (simp only: accept)
qed

theorem getSecureRandomInt_unbiased_witness:
  "rejection_limit 10 = 4294967290
   \<and> card {r. getSecureRandomInt 10 [r] = Some (3, [])} = 429496729"
proof (rule conjI)
  show "rejection_limit 10 = 4294967290"
    by (simp add: rejection_limit_def maxUint32_def)
  have a: "(1::int) \<le> 10" "(10::int) \<le> 2 ^ 32 - 1" "(3::nat) < nat 10"
    by simp_all
  have "card {r. getSecureRandomInt 10 [r] = Some (3, [])} = nat (rejection_limit 10 div 10)"
    using getSecureRandomInt_unbiased [OF a] by (elim conjE)
  also have "\<dots> = 429496729"
    by (simp add: rejection_limit_def maxUint32_def)
  finally show "card {r. getSecureRandomInt 10 [r] = Some (3, [])} = 429496729" .
qed

subsection \<open>PIN generator\<close>

lemma digits_nth: "d < 10 \<Longrightarrow> digits ! d \<in> set digits"
  by (rule nth_mem) (simp add: digits_def)

lemma pin_loop_distinct:
  "pin_loop opts pin attempts rs = Some (pin', rs') \<Longrightarrow> noRepeatedDigits opts \<Longrightarrow>
   distinct pin \<Longrightarrow> set pin \<subseteq> set digits \<Longrightarrow> distinct pin' \<and> set pin' \<subseteq> set digits"
proof (induction opts pin attempts rs rule: pin_loop.induct)
  case (1 opts pin attempts rs)
  show ?case
  proof (cases "int (length pin) < pin_length opts \<and> attempts < maxAttempts")
    case False
    with "1.prems" show ?thesis by (simp add: pin_loop.simps[of opts pin attempts rs])
  next
    case True
    then obtain d rs1 where d: "getSecureRandomInt 10 rs = Some (d, rs1)"
      using "1.prems"(1)
      by (auto simp: pin_loop.simps[of opts pin attempts rs] split: option.splits)
    have "d < nat 10" using d by (rule getSecureRandomInt_less) simp
    then have in_digits: "digits ! d \<in> set digits" by (simp add: digits_nth)
    show ?thesis
    proof (cases "digits ! d \<in> set pin")
      case True
      with \<open>int (length pin) < pin_length opts \<and> attempts < maxAttempts\<close> d "1.prems"
      have "pin_loop opts pin (attempts + 1) rs1 = Some (pin', rs')"
        by (simp add: pin_loop.simps[of opts pin attempts rs])
      then show ?thesis
        using "1.IH"(1)[OF \<open>int (length pin) < pin_length opts \<and> attempts < maxAttempts\<close> d refl refl]
          True "1.prems" by simp
    next
      case False
      have fresh: "distinct (pin @ [digits ! d])" "set (pin @ [digits ! d]) \<subseteq> set digits"
        using False in_digits "1.prems" by auto
      show ?thesis
      proof (cases "noSequentialDigits opts \<and> length pin > 0 \<and> forms_run pin (digits ! d)")
        case True
        with False \<open>int (length pin) < pin_length opts \<and> attempts < maxAttempts\<close> d "1.prems"
        have "pin_loop opts pin (attempts + 1) rs1 = Some (pin', rs')"
          by (simp add: pin_loop.simps[of opts pin attempts rs])
        then show ?thesis
          using "1.IH"(2)[OF \<open>int (length pin) < pin_length opts \<and> attempts < maxAttempts\<close> d refl refl _ True]
            False "1.prems" by simp
      next
        case nrun: False
        with False \<open>int (length pin) < pin_length opts \<and> attempts < maxAttempts\<close> d "1.prems"
        have "pin_loop opts (pin @ [digits ! d]) 0 rs1 = Some (pin', rs')"
          by (auto simp: pin_loop.simps[of opts pin attempts rs])
        then show ?thesis
          using "1.IH"(3)[OF \<open>int (length pin) < pin_length opts \<and> attempts < maxAttempts\<close> d refl refl _ nrun]
            False "1.prems"(2) fresh by simp
      qed
    qed
  qed
qed

lemma pin_loop_at_most_ten:
  assumes "pin_loop opts [] 0 rs = Some (pin, rs')" and "noRepeatedDigits opts"
  shows "length pin \<le> 10"
proof -
  have dp: "distinct pin \<and> set pin \<subseteq> set digits"
    using pin_loop_distinct[OF assms(1,2)] by simp
  then have "length pin = card (set pin)" by (simp add: distinct_card)
  also have "\<dots> \<le> card (set digits)" using dp by (simp add: card_mono)
  also have "\<dots> \<le> length digits" by (rule card_length)
  also have "\<dots> = 10" by (simp add: digits_def)
  finally show ?thesis .
qed

text \<open>
  C1 claims that for every PIN configuration with a length from 4 to 12, \<open>generatePIN\<close>
  returns a PIN after at most one fallback. With \<open>noRepeatedDigits\<close> set, the buffer
  never holds more than the ten distinct digits, and the fallback clears only
  \<open>noSequentialDigits\<close>. So for a length above 10 (11 and 12 are in the documented
  range) every fallback call fails in the same way and calls the next one: whatever the
  supply of draws, the function does not return.
\<close>

theorem generatePIN_never_returns:
  "noRepeatedDigits opts \<Longrightarrow> 10 < pin_length opts \<Longrightarrow> generatePIN opts rs = None"
proof (induction opts rs rule: generatePIN.induct)
  case (1 opts rs)
  show ?case
  proof (cases "pin_loop opts [] 0 rs")
    case None
    then show ?thesis by (simp add: generatePIN.simps[of opts rs])
  next
    case (Some res)
    obtain pin rs' where res: "res = (pin, rs')" by (cases res)
    have "length pin \<le> 10"
      using pin_loop_at_most_ten Some res "1.prems"(1) by simp
    then have short: "int (length pin) < pin_length opts" using "1.prems"(2) by simp
    have "generatePIN (opts\<lparr>noSequentialDigits := False\<rparr>) rs' = None"
      using "1.IH"[OF Some res[symmetric] short] "1.prems" by simp
    then show ?thesis
      using Some res short by (simp add: generatePIN.simps[of opts rs])
  qed
qed

theorem generatePIN_never_returns_witness:
  "noRepeatedDigits \<lparr>pin_length = 11, noRepeatedDigits = True, noSequentialDigits = False\<rparr>
   \<and> 10 < pin_length \<lparr>pin_length = 11, noRepeatedDigits = True, noSequentialDigits = False\<rparr>
   \<and> generatePIN \<lparr>pin_length = 11, noRepeatedDigits = True, noSequentialDigits = False\<rparr>
        [0, 1, 2, 3, 4, 5, 6, 7, 8, 9, 0, 1] = None"
  using generatePIN_never_returns
    [of "\<lparr>pin_length = 11, noRepeatedDigits = True, noSequentialDigits = False\<rparr>"
        "[0, 1, 2, 3, 4, 5, 6, 7, 8, 9, 0, 1]"]
  by simp

subsection \<open>Password generator\<close>

text \<open>
  C4 claims that with \<open>excludeAmbiguous\<close> set none of \<open>0 O 1 l I |\<close> appears in the
  password. The uppercase, lowercase and numbers blocks remove the ambiguous characters;
  the symbols block applies \<open>excludeBrackets\<close> only, and the default symbols contain
  \<open>|\<close>. With symbols enabled the bar is drawn like any other symbol: here the first
  draw, 18, selects it.
\<close>

theorem generatePassword_ambiguous_symbol:
  "generatePassword
     \<lparr>pw_length = 4, uppercase = False, lowercase = False, numbers = False, symbols = True,
      excludeAmbiguous = True, excludeBrackets = False, customSymbols = None,
      minNumbers = 0, minSymbols = 0, beginWithLetter = False, noRepeating = False\<rparr>
     [18, 0, 0, 0, 3, 2, 1] = Some (''|!!!'', [])
   \<and> CHR ''|'' \<in> set CHARS_ambiguous"
  by code_simp

text \<open>
  C3 claims that with \<open>noRepeating\<close> set no character occurs twice. The pool is a string,
  and \<open>customSymbols\<close> is copied into it as typed: a character that occurs twice in the
  pool (typed twice, or also a member of another enabled class) is removed from the
  available pool one occurrence at a time and can be drawn again. With the custom
  symbols \<open>@@##\<close> and length 4 every draw sequence yields two \<open>@\<close> and two \<open>#\<close>.
\<close>

theorem generatePassword_repeats_custom_symbols:
  "generatePassword
     \<lparr>pw_length = 4, uppercase = False, lowercase = False, numbers = False, symbols = True,
      excludeAmbiguous = False, excludeBrackets = False, customSymbols = Some ''@@##'',
      minNumbers = 0, minSymbols = 0, beginWithLetter = False, noRepeating = True\<rparr>
     [0, 0, 0, 0, 0, 0, 0] = Some (''@##@'', [])
   \<and> \<not> distinct ''@##@''"
  by code_simp

text \<open>
  C5, as stated: with \<open>beginWithLetter\<close> set the password starts with a letter. The first
  character is seeded only when the letter pool is not empty; with numbers alone
  enabled nothing is seeded, and the final step keeps the first drawn digit in front.
\<close>

theorem generatePassword_first_char_digit:
  "generatePassword
     \<lparr>pw_length = 4, uppercase = False, lowercase = False, numbers = True, symbols = False,
      excludeAmbiguous = False, excludeBrackets = False, customSymbols = None,
      minNumbers = 0, minSymbols = 0, beginWithLetter = True, noRepeating = False\<rparr>
     [1, 2, 3, 4, 2, 1] = Some (''1234'', [])
   \<and> \<not> is_letter (hd ''1234'')"
  by code_simp

lemma removeChars_subset: "set (removeChars s r) \<subseteq> set s"
  by (auto simp: removeChars_def)

lemma letterPool_letters: "c \<in> set (letterPool opts) \<Longrightarrow> is_letter c"
  using removeChars_subset by (fastforce simp: letterPool_def is_letter_def split: if_splits)

lemma add_required_prefix:
  "\<exists>ys. fst (add_required len nr cs (password, used)) = password @ ys"
proof (induction cs arbitrary: password used)
  case Nil
  show ?case by simp
next
  case (Cons c cs)
  show ?case
  proof (cases "int (length password) < len \<and> (\<not> nr \<or> c \<notin> used)")
    case True
    obtain ys where "fst (add_required len nr cs (password @ [c], if nr then insert c used else used))
        = (password @ [c]) @ ys"
      using Cons.IH by blast
    with True show ?thesis by auto
  next
    case False
    with Cons.IH[of password used] show ?thesis by auto
  qed
qed

lemma fill_remaining_prefix:
  "fill_remaining len nr password avail rs = Some (password', rs') \<Longrightarrow>
   \<exists>ys. password' = password @ ys"
proof (induction len nr password avail rs rule: fill_remaining.induct)
  case (1 len nr password avail rs)
  show ?case
  proof (cases "int (length password) < len \<and> length avail > 0")
    case False
    with "1.prems" show ?thesis
      by (auto simp: fill_remaining.simps[of len nr password avail rs])
  next
    case True
    then obtain index rs1 where d: "getSecureRandomInt (int (length avail)) rs = Some (index, rs1)"
      using "1.prems"
      by (auto simp: fill_remaining.simps[of len nr password avail rs] split: option.splits)
    have "fill_remaining len nr (password @ [char_at avail index])
            (if nr then take index avail @ drop (Suc index) avail else avail) rs1
          = Some (password', rs')"
      using "1.prems" True d by (simp add: fill_remaining.simps[of len nr password avail rs])
    from "1.IH"[OF True d refl this] show ?thesis by auto
  qed
qed

lemma shuffle_singleton: "secureShuffleArray [x] rs = Some ([x], rs)"
  by (simp add: secureShuffleArray_def)

text \<open>
  C5, amended: for every configuration with \<open>beginWithLetter\<close> set and at least one of
  \<open>uppercase\<close> and \<open>lowercase\<close> enabled, the returned password is not empty and its first
  character is a letter: the seeded character stays at the front of the buffer and the
  final shuffle permutes only the rest.
\<close>

theorem generatePassword_begins_with_letter:
  assumes "beginWithLetter opts" and "uppercase opts \<or> lowercase opts"
    and "generatePassword opts rs = Some (pw, rs')"
  shows "pw \<noteq> [] \<and> is_letter (hd pw)"
proof -
  have nonempty: "length (letterPool opts) > 0"
    using assms(2) by (auto simp: letterPool_def removeChars_def CHARS_uppercase_def
        CHARS_lowercase_def CHARS_ambiguous_def)
  obtain required rs1 where req: "requiredChars opts rs = Some (required, rs1)"
    using assms(3) by (auto simp: generatePassword_def split: option.splits)
  obtain seeded rs2 where seed: "seed_first opts rs1 = Some (seeded, rs2)"
    using assms(3) req by (auto simp: generatePassword_def split: option.splits)
  obtain i where i: "getSecureRandomInt (int (length (letterPool opts))) rs1 = Some (i, rs2)"
    and seeded: "fst seeded = [char_at (letterPool opts) i]"
    using seed assms(1) nonempty
    by (auto simp: seed_first_def Let_def split: option.splits)
  have "i < length (letterPool opts)"
    using getSecureRandomInt_less[OF i] nonempty by simp
  then obtain c where c: "char_at (letterPool opts) i = Some c" "c \<in> set (letterPool opts)"
    by (simp add: char_at_def)
  obtain used0 where s0: "seeded = ([Some c], used0)"
    using seeded c(1) by (cases seeded) simp
  obtain password1 usedChars where add:
    "add_required (target_length opts) (noRepeating opts) required seeded = (password1, usedChars)"
    by (cases "add_required (target_length opts) (noRepeating opts) required seeded")
  obtain ys where p1: "password1 = [Some c] @ ys"
    using add_required_prefix[of "target_length opts" "noRepeating opts" required "[Some c]" used0]
      add s0 by auto
  let ?avail = "if noRepeating opts then filter (\<lambda>c. Some c \<notin> usedChars) (charPool opts)
                else charPool opts"
  obtain password rs3 where fill:
    "fill_remaining (target_length opts) (noRepeating opts) password1 ?avail rs2 = Some (password, rs3)"
    using assms(3) req seed add
    by (auto simp: generatePassword_def Let_def split: option.splits)
  obtain zs where p: "password = Some c # zs"
    using fill_remaining_prefix[OF fill] p1 by auto
  show ?thesis
  proof (cases "length password > 1")
    case True
    then obtain rest rs4 where "secureShuffleArray (tl password) rs3 = Some (rest, rs4)"
      and "pw = to_string (hd password) @ join_chars rest"
      using assms(1,3) req seed add fill
      by (auto simp: generatePassword_def Let_def split: option.splits)
    then have "pw = c # join_chars rest" using p by (simp add: to_string_def)
    then show ?thesis using letterPool_letters[OF c(2)] by simp
  next
    case False
    then have "password = [Some c]" using p by simp
    then have "pw = [c]"
      using assms(3) req seed add fill
      by (auto simp: generatePassword_def Let_def shuffle_singleton join_chars_def
          split: option.splits)
    then show ?thesis using letterPool_letters[OF c(2)] by simp
  qed
qed

theorem generatePassword_begins_with_letter_witness:
  "beginWithLetter
     \<lparr>pw_length = 4, uppercase = False, lowercase = True, numbers = True, symbols = False,
      excludeAmbiguous = True, excludeBrackets = False, customSymbols = None,
      minNumbers = 1, minSymbols = 0, beginWithLetter = True, noRepeating = True\<rparr>
   \<and> generatePassword
     \<lparr>pw_length = 4, uppercase = False, lowercase = True, numbers = True, symbols = False,
      excludeAmbiguous = True, excludeBrackets = False, customSymbols = None,
      minNumbers = 1, minSymbols = 0, beginWithLetter = True, noRepeating = True\<rparr>
     [5, 11, 0, 30, 0, 1] = Some (''mba7'', [])
   \<and> is_letter (hd ''mba7'')"
proof -
  let ?opts = "\<lparr>pw_length = 4, uppercase = False, lowercase = True, numbers = True,
      symbols = False, excludeAmbiguous = True, excludeBrackets = False, customSymbols = None,
      minNumbers = 1, minSymbols = 0, beginWithLetter = True, noRepeating = True\<rparr>"
  have a: "beginWithLetter ?opts" "uppercase ?opts \<or> lowercase ?opts" by simp_all
  have e: "generatePassword ?opts [5, 11, 0, 30, 0, 1] = Some (''mba7'', [])" by code_simp
  note r = generatePassword_begins_with_letter [OF a e]
  show ?thesis by (intro conjI a(1) e r[THEN conjunct2])
qed

subsubsection \<open>The no-repeat constraint on a pool without duplicates\<close>

lemma shuffle_from_mset:
  "shuffle_from i xs rs = Some (ys, rs') \<Longrightarrow> i < length xs \<Longrightarrow> mset ys = mset xs"
proof (induction i arbitrary: xs rs)
  case 0
  then show ?case by simp
next
  case (Suc i)
  from Suc.prems(1) obtain j rs1 where
    j: "getSecureRandomInt (int (Suc i) + 1) rs = Some (j, rs1)"
    and rest: "shuffle_from i (xs[Suc i := xs ! j, j := xs ! Suc i]) rs1 = Some (ys, rs')"
    by (auto split: option.splits)
  have "j < nat (int (Suc i) + 1)" using j by (rule getSecureRandomInt_less) simp
  then have jl: "j < length xs" using Suc.prems(2) by simp
  have "mset ys = mset (xs[Suc i := xs ! j, j := xs ! Suc i])"
    using Suc.IH[OF rest] Suc.prems(2) by simp
  also have "\<dots> = mset xs" using jl Suc.prems(2) by (simp add: mset_swap)
  finally show ?case .
qed

lemma secureShuffleArray_mset:
  "secureShuffleArray xs rs = Some (ys, rs') \<Longrightarrow> mset ys = mset xs"
  by (cases xs) (auto simp: secureShuffleArray_def dest: shuffle_from_mset)

lemma distinct_remove_nth:
  assumes "distinct xs" "i < length xs"
  shows "distinct (take i xs @ drop (Suc i) xs)"
    and "xs ! i \<notin> set (take i xs @ drop (Suc i) xs)"
    and "set (take i xs @ drop (Suc i) xs) \<subseteq> set xs"
    and "Suc (length (take i xs @ drop (Suc i) xs)) = length xs"
proof -
  have xs: "xs = take i xs @ xs ! i # drop (Suc i) xs"
    using assms(2) by (rule id_take_nth_drop)
  then have d: "distinct (take i xs @ xs ! i # drop (Suc i) xs)" using assms(1) by simp
  from d show "distinct (take i xs @ drop (Suc i) xs)" by auto
  from d show "xs ! i \<notin> set (take i xs @ drop (Suc i) xs)" by auto
  show "set (take i xs @ drop (Suc i) xs) \<subseteq> set xs"
    by (auto dest: in_set_takeD in_set_dropD)
  show "Suc (length (take i xs @ drop (Suc i) xs)) = length xs"
    using assms(2) by simp
qed

lemma fill_remaining_no_repeat:
  "fill_remaining len True password avail rs = Some (password', rs') \<Longrightarrow>
   distinct password \<Longrightarrow> None \<notin> set password \<Longrightarrow> distinct avail \<Longrightarrow>
   Some ` set avail \<inter> set password = {} \<Longrightarrow>
   distinct password' \<and> None \<notin> set password'
   \<and> (len \<le> int (length password') \<or> length password' = length password + length avail)
   \<and> int (length password') \<le> max len (int (length password))"
proof (induction len True password avail rs rule: fill_remaining.induct)
  case (1 len password avail rs)
  show ?case
  proof (cases "int (length password) < len \<and> length avail > 0")
    case False
    then have "password' = password"
      using "1.prems"(1) by (auto simp: fill_remaining.simps[of len True password avail rs])
    with False "1.prems" show ?thesis by auto
  next
    case True
    then obtain index rs1 where d: "getSecureRandomInt (int (length avail)) rs = Some (index, rs1)"
      using "1.prems"(1)
      by (auto simp: fill_remaining.simps[of len True password avail rs] split: option.splits)
    have il: "index < length avail" using getSecureRandomInt_less[OF d] True by simp
    let ?c = "avail ! index"
    let ?avail' = "take index avail @ drop (Suc index) avail"
    have ca: "char_at avail index = Some ?c" using il by (simp add: char_at_def)
    have next_call: "fill_remaining len True (password @ [Some ?c]) ?avail' rs1 = Some (password', rs')"
      using "1.prems"(1) True d ca
      by (simp add: fill_remaining.simps[of len True password avail rs])
    note rm = distinct_remove_nth[OF "1.prems"(4) il]
    have cin: "?c \<in> set avail" using il by simp
    have p1: "distinct (password @ [Some ?c])" using "1.prems"(2,5) cin by auto
    have p2: "None \<notin> set (password @ [Some ?c])" using "1.prems"(3) by simp
    have p3: "Some ` set ?avail' \<inter> set (password @ [Some ?c]) = {}"
      using rm(2,3) "1.prems"(5) by auto
    have ih: "distinct password' \<and> None \<notin> set password'
       \<and> (len \<le> int (length password')
           \<or> length password' = length (password @ [Some ?c]) + length ?avail')
       \<and> int (length password') \<le> max len (int (length (password @ [Some ?c])))"
      using "1.hyps"[OF True d refl] next_call p1 p2 rm(1) p3 ca by simp
    have "length (password @ [Some ?c]) + length ?avail' = length password + length avail"
      using rm(4) by simp
    moreover have "max len (int (length (password @ [Some ?c]))) = max len (int (length password))"
      using True by simp
    ultimately show ?thesis using ih by metis
  qed
qed

lemma add_required_no_repeat:
  "add_required len True cs (password, used) = (password', used') \<Longrightarrow>
   distinct password \<Longrightarrow> used = set password \<Longrightarrow>
   distinct password' \<and> used' = set password' \<and> set password' \<subseteq> set password \<union> set cs
   \<and> int (length password') \<le> max len (int (length password))"
proof (induction cs arbitrary: password used)
  case Nil
  then show ?case by auto
next
  case (Cons c cs)
  show ?case
  proof (cases "int (length password) < len \<and> c \<notin> used")
    case True
    then have call: "add_required len True cs (password @ [c], insert c used) = (password', used')"
      using Cons.prems(1) by simp
    have "distinct (password @ [c])" "insert c used = set (password @ [c])"
      using True Cons.prems(2,3) by auto
    from Cons.IH[OF call this] True show ?thesis by auto
  next
    case False
    then have call: "add_required len True cs (password, used) = (password', used')"
      using Cons.prems(1) by auto
    from Cons.IH[OF call Cons.prems(2,3)] show ?thesis by auto
  qed
qed

lemma draw_required_in_class:
  "draw_required n chars rs = Some (cs, rs') \<Longrightarrow> chars \<noteq> [] \<Longrightarrow>
   set cs \<subseteq> Some ` set chars"
proof (induction n arbitrary: rs cs)
  case 0
  then show ?case by simp
next
  case (Suc n)
  from Suc.prems(1) obtain i rs1 cs1 where
    i: "getSecureRandomInt (int (length chars)) rs = Some (i, rs1)"
    and rest: "draw_required n chars rs1 = Some (cs1, rs')"
    and cs: "cs = char_at chars i # cs1"
    by (auto split: option.splits)
  have "i < length chars" using getSecureRandomInt_less[OF i] Suc.prems(2) by simp
  then have "char_at chars i \<in> Some ` set chars" by (simp add: char_at_def)
  with Suc.IH[OF rest Suc.prems(2)] cs show ?case by simp
qed

lemma numbers_chars_not_Nil: "numbers_chars opts \<noteq> []"
  by (simp add: numbers_chars_def removeChars_def CHARS_numbers_def CHARS_ambiguous_def)

lemma letter_classes_not_Nil: "uppercase_chars opts \<noteq> []" "lowercase_chars opts \<noteq> []"
  by (simp_all add: uppercase_chars_def lowercase_chars_def removeChars_def
      CHARS_uppercase_def CHARS_lowercase_def CHARS_ambiguous_def)

lemma charPool_classes:
  "uppercase opts \<Longrightarrow> set (uppercase_chars opts) \<subseteq> set (charPool opts)"
  "lowercase opts \<Longrightarrow> set (lowercase_chars opts) \<subseteq> set (charPool opts)"
  "numbers opts \<Longrightarrow> set (numbers_chars opts) \<subseteq> set (charPool opts)"
  "symbols opts \<Longrightarrow> symbols_chars opts \<noteq> [] \<Longrightarrow>
     set (symbols_chars opts) \<subseteq> set (charPool opts)"
  using numbers_chars_not_Nil[of opts] letter_classes_not_Nil[of opts]
  by (auto simp: charPool_def Let_def)

lemma charPool_not_Nil: "charPool opts \<noteq> []"
  by (auto simp: charPool_def Let_def CHARS_lowercase_def)

lemma requiredChars_in_pool:
  assumes "requiredChars opts rs = Some (required, rs1)"
    and "symbols opts \<longrightarrow> symbols_chars opts \<noteq> []"
  shows "set required \<subseteq> Some ` set (charPool opts)"
proof -
  obtain ns rsa ss where
    ns: "(if numbers opts then draw_required (nat (minNumbers opts)) (numbers_chars opts) rs
          else Some ([], rs)) = Some (ns, rsa)"
    and ss: "(if symbols opts then draw_required (nat (minSymbols opts)) (symbols_chars opts) rsa
          else Some ([], rsa)) = Some (ss, rs1)"
    and req: "required = ns @ ss"
    using assms(1) by (auto simp: requiredChars_def split: option.splits)
  have "set ns \<subseteq> Some ` set (charPool opts)"
  proof (cases "numbers opts")
    case True
    then have "set ns \<subseteq> Some ` set (numbers_chars opts)"
      using ns draw_required_in_class numbers_chars_not_Nil by simp
    then show ?thesis using charPool_classes(3)[OF True] by blast
  next
    case False
    then show ?thesis using ns by simp
  qed
  moreover have "set ss \<subseteq> Some ` set (charPool opts)"
  proof (cases "symbols opts")
    case True
    then have ne: "symbols_chars opts \<noteq> []" using assms(2) by simp
    have "set ss \<subseteq> Some ` set (symbols_chars opts)"
      using ss True draw_required_in_class[OF _ ne] by simp
    then show ?thesis using charPool_classes(4)[OF True ne] by blast
  next
    case False
    then show ?thesis using ss by simp
  qed
  ultimately show ?thesis using req by simp
qed

lemma letterPool_in_pool: "set (letterPool opts) \<subseteq> set (charPool opts)"
proof -
  have "letterPool opts = (if uppercase opts then uppercase_chars opts else [])
      @ (if lowercase opts then lowercase_chars opts else [])"
    by (simp add: letterPool_def uppercase_chars_def lowercase_chars_def)
  then show ?thesis using charPool_classes(1,2)[of opts] by auto
qed

lemma seed_first_result:
  assumes "seed_first opts rs = Some ((password, used), rs')" and "noRepeating opts"
  shows "distinct password \<and> used = set password \<and> length password \<le> 1
    \<and> set password \<subseteq> Some ` set (charPool opts)"
proof (cases "beginWithLetter opts \<and> length (letterPool opts) > 0")
  case False
  then show ?thesis using assms by (auto simp: seed_first_def)
next
  case True
  then obtain i where i: "getSecureRandomInt (int (length (letterPool opts))) rs = Some (i, rs')"
    and p: "password = [char_at (letterPool opts) i]" "used = {char_at (letterPool opts) i}"
    using assms by (auto simp: seed_first_def Let_def split: option.splits)
  have il: "i < length (letterPool opts)" using getSecureRandomInt_less[OF i] True by simp
  then have "letterPool opts ! i \<in> set (charPool opts)"
    using letterPool_in_pool[of opts] nth_mem[OF il] by blast
  then have "char_at (letterPool opts) i \<in> Some ` set (charPool opts)"
    using il by (simp add: char_at_def)
  then show ?thesis using p by simp
qed

lemma join_chars_Some: "None \<notin> set xs \<Longrightarrow> join_chars xs = map the xs"
proof (induction xs)
  case Nil
  show ?case by (simp add: join_chars_def)
next
  case (Cons a xs)
  have "a \<noteq> None"
  proof
    assume "a = None" with Cons.prems show False by simp
  qed
  then obtain c where "a = Some c" by blast
  with Cons show ?case by (simp add: join_chars_def)
qed

lemma join_chars_permuted:
  assumes "mset ys = mset xs" "distinct xs" "None \<notin> set xs"
  shows "distinct (join_chars ys) \<and> length (join_chars ys) = length xs"
proof -
  have d: "distinct ys" using assms(1,2) by (metis mset_eq_imp_distinct_iff)
  have n: "None \<notin> set ys" using assms(1,3) by (metis mset_eq_setD)
  have "inj_on the (set ys)"
  proof (rule inj_onI)
    fix a b assume ab: "a \<in> set ys" "b \<in> set ys" "the a = the b"
    have "a \<noteq> None"
    proof
      assume "a = None" with ab(1) n show False by simp
    qed
    moreover have "b \<noteq> None"
    proof
      assume "b = None" with ab(2) n show False by simp
    qed
    ultimately obtain x y where "a = Some x" "b = Some y" by blast
    then show "a = b" using ab(3) by simp
  qed
  then have "distinct (map the ys)" using d by (simp add: distinct_map)
  moreover have "length ys = length xs" using assms(1) by (metis mset_eq_length)
  ultimately show ?thesis using n by (simp add: join_chars_Some)
qed

lemma unused_pool_length:
  assumes "distinct pool" "distinct p" "set p \<subseteq> Some ` set pool"
  shows "length p + length (filter (\<lambda>c. Some c \<notin> set p) pool) = length pool"
proof -
  let ?in = "filter (\<lambda>c. Some c \<in> set p) pool"
  have "set p = Some ` set ?in" using assms(3) by auto
  moreover have "card (Some ` set ?in) = card (set ?in)" by (rule card_image) simp
  ultimately have "card (set p) = card (set ?in)" by simp
  moreover have "card (set p) = length p" using assms(2) by (rule distinct_card)
  moreover have "card (set ?in) = length ?in" by (rule distinct_card) (simp add: assms(1))
  ultimately have "length p = length ?in" by simp
  moreover have "length ?in + length (filter (\<lambda>c. \<not> Some c \<in> set p) pool) = length pool"
    by (rule sum_length_filter_compl)
  ultimately show ?thesis by simp
qed

text \<open>
  Where the assembled pool holds every character once and the symbols class, if enabled,
  is not empty, the constraint is met: the password has no repeated character, and for a
  requested length of at least 1 its length is the requested length, or the pool size
  when that is smaller.
\<close>

lemma generatePassword_no_repeats:
  assumes nr: "noRepeating opts" and dp: "distinct (charPool opts)"
    and sy: "symbols opts \<longrightarrow> symbols_chars opts \<noteq> []"
    and gen: "generatePassword opts rs = Some (pw, rs')"
  shows "distinct pw
    \<and> (1 \<le> pw_length opts \<longrightarrow>
         int (length pw) = min (pw_length opts) (int (length (charPool opts))))"
proof -
  let ?pool = "charPool opts"
  let ?len = "target_length opts"
  obtain required rs1 where req: "requiredChars opts rs = Some (required, rs1)"
    using gen by (auto simp: generatePassword_def split: option.splits)
  obtain seeded rs2 where seed: "seed_first opts rs1 = Some (seeded, rs2)"
    using gen req by (auto simp: generatePassword_def split: option.splits)
  obtain p0 u0 where s0: "seeded = (p0, u0)" by (cases seeded)
  obtain p1 u1 where add: "add_required ?len True required (p0, u0) = (p1, u1)"
    by (cases "add_required ?len True required (p0, u0)")
  let ?avail = "filter (\<lambda>c. Some c \<notin> u1) ?pool"
  obtain password rs3 where fill: "fill_remaining ?len True p1 ?avail rs2 = Some (password, rs3)"
    using gen req seed s0 add nr
    by (auto simp: generatePassword_def Let_def split: option.splits)
  have seeded: "distinct p0" "u0 = set p0" "length p0 \<le> 1" "set p0 \<subseteq> Some ` set ?pool"
    using seed_first_result[of opts rs1 p0 u0 rs2] seed s0 nr by simp_all
  have added: "distinct p1" "u1 = set p1" "set p1 \<subseteq> set p0 \<union> set required"
    "int (length p1) \<le> max ?len (int (length p0))"
    using add_required_no_repeat[OF add seeded(1,2)] by simp_all
  have p1_pool: "set p1 \<subseteq> Some ` set ?pool"
    using added(3) seeded(4) requiredChars_in_pool[OF req sy] by blast
  then have p1_some: "None \<notin> set p1" by auto
  have avail: "distinct ?avail" "Some ` set ?avail \<inter> set p1 = {}"
    using dp added(2) by auto
  have filled: "distinct password" "None \<notin> set password"
    "?len \<le> int (length password) \<or> length password = length p1 + length ?avail"
    "int (length password) \<le> max ?len (int (length p1))"
    using fill_remaining_no_repeat[OF fill added(1) p1_some avail] by simp_all
  have total: "length p1 + length ?avail = length ?pool"
    using unused_pool_length[OF dp added(1) p1_pool] added(2) by simp
  have target: "?len = min (pw_length opts) (int (length ?pool))"
    using nr by (simp add: target_length_def)
  obtain ys where ys: "mset ys = mset password" "pw = join_chars ys"
  proof (cases "beginWithLetter opts \<and> length password > 1")
    case True
    then obtain rest rs4 where sh: "secureShuffleArray (tl password) rs3 = Some (rest, rs4)"
      and pw: "pw = to_string (hd password) @ join_chars rest"
      using gen req seed s0 add nr fill
      by (auto simp: generatePassword_def Let_def split: option.splits)
    from True obtain h t where ht: "password = h # t" by (cases password) auto
    have "h \<noteq> None"
    proof
      assume "h = None" with ht filled(2) show False by simp
    qed
    then obtain c where c: "h = Some c" by blast
    have "mset (h # rest) = mset password"
      using secureShuffleArray_mset[OF sh] ht by simp
    moreover have "pw = join_chars (h # rest)"
      using pw ht c by (simp add: to_string_def join_chars_def)
    ultimately show ?thesis using that by blast
  next
    case False
    then obtain shuffled rs4 where sh: "secureShuffleArray password rs3 = Some (shuffled, rs4)"
      and pw: "pw = join_chars shuffled"
      using gen req seed s0 add nr fill
      by (auto simp: generatePassword_def Let_def split: option.splits)
    then show ?thesis using that secureShuffleArray_mset[OF sh] by blast
  qed
  have final: "distinct pw" "length pw = length password"
    using join_chars_permuted[OF ys(1) filled(1,2)] ys(2) by simp_all
  have "int (length password) = ?len" if "1 \<le> pw_length opts"
  proof -
    have "1 \<le> int (length ?pool)" using charPool_not_Nil[of opts] by (cases ?pool) auto
    then have one: "1 \<le> ?len" using that target by simp
    have "int (length password) \<le> ?len" using filled(4) added(4) seeded(3) one by linarith
    moreover have "?len \<le> int (length password)"
      using filled(3) total target by linarith
    ultimately show ?thesis by simp
  qed
  then show ?thesis using final target by simp
qed

subsection \<open>Passphrase generator\<close>

lemma toString_chars: "c \<in> set (toString n) \<Longrightarrow> 48 \<le> (of_char c :: nat) \<and> (of_char c :: nat) \<le> 57"
proof (induction n arbitrary: c rule: toString.induct)
  case (1 n)
  show ?case
  proof (cases "n < 10")
    case True
    with "1.prems" show ?thesis by (simp add: toString.simps[of n])
  next
    case False
    with "1.prems" "1.IH" show ?thesis
      by (auto simp: toString.simps[of n])
  qed
qed

lemma toString_not_Nil: "toString n \<noteq> []"
  by (simp add: toString.simps[of n])

text \<open>
  C7, as stated: whenever the word list is present the sentinel is not returned. The
  sentinel is an ordinary string and the words are joined without any check. The word
  list is injected from outside the generator; a list that holds the words \<open>error\<close>,
  \<open>loading\<close> and \<open>wordlist\<close> spells the sentinel with the separator \<open>-\<close> and no
  capitalisation.
\<close>

theorem generatePassphrase_spells_sentinel:
  "generatePassphrase (Some [''error'', ''loading'', ''wordlist''])
     \<lparr>wordCount = 3, separator = ''-'', capitalize = ''none'', includeNumber = False\<rparr>
     [0, 1, 2] = Some (js error_loading_wordlist, [])"
  by code_simp

lemma draw_words_result:
  "draw_words n wl rs = Some (ws, rs') \<Longrightarrow> wl \<noteq> [] \<Longrightarrow> length ws = n \<and> set ws \<subseteq> set wl"
proof (induction n arbitrary: rs ws)
  case 0
  then show ?case by simp
next
  case (Suc n)
  from Suc.prems(1) obtain i rs1 ws1 where
    i: "getSecureRandomInt (int (length wl)) rs = Some (i, rs1)"
    and rest: "draw_words n wl rs1 = Some (ws1, rs')" and ws: "ws = wl ! i # ws1"
    by (auto split: option.splits)
  have "i < length wl" using getSecureRandomInt_less[OF i] Suc.prems(2) by simp
  then have "wl ! i \<in> set wl" by simp
  with Suc.IH[OF rest Suc.prems(2)] ws show ?case by simp
qed

text \<open>The code units of the sentinel are lowercase letters and the hyphen.\<close>

lemma sentinel_units:
  "u \<in> set (js error_loading_wordlist) \<Longrightarrow> (97 \<le> u \<and> u \<le> 122) \<or> u = 45"
  by (auto simp: js_def error_loading_wordlist_def)

lemma inj_of_char_nat: "inj (of_char :: char \<Rightarrow> nat)"
  by (rule injI) simp

lemma js_eq_iff: "js x = js y \<longleftrightarrow> x = y"
  unfolding js_def using inj_of_char_nat by (simp add: inj_map_eq_map)

lemma js_append: "js (x @ y) = js x @ js y"
  by (simp add: js_def)

lemma suffix_js: "suffix (js w) (js s) \<Longrightarrow> suffix w s"
proof -
  assume "suffix (js w) (js s)"
  then obtain zs where "js s = zs @ js w" by (auto simp: suffix_def)
  then obtain us vs where s: "s = us @ vs" and "js vs = js w"
    unfolding js_def by (auto simp: map_eq_append_conv)
  then have "vs = w" by (simp add: js_eq_iff)
  with s show ?thesis by (simp add: suffix_def)
qed

text \<open>A code unit that \<open>toUpperCase\<close> changes becomes something outside the sentinel.\<close>

lemma toUpperCase_unit_in_sentinel:
  assumes "set (toUpperCase_unit c) \<subseteq> set (js error_loading_wordlist)"
  shows "toUpperCase_unit c = [of_char c]"
proof -
  have r: "\<forall>u \<in> set (toUpperCase_unit c). (97 \<le> u \<and> u \<le> 122) \<or> u = 45"
    using assms sentinel_units by blast
  show ?thesis
  proof (rule ccontr)
    assume "toUpperCase_unit c \<noteq> [of_char c]"
    then have "\<exists>u \<in> set (toUpperCase_unit c). \<not> ((97 \<le> u \<and> u \<le> 122) \<or> u = 45)"
      by (auto simp: toUpperCase_unit_def Let_def split: if_splits)
    with r show False by blast
  qed
qed

lemma toUpperCase_in_sentinel:
  "set (toUpperCase x) \<subseteq> set (js error_loading_wordlist) \<Longrightarrow> toUpperCase x = js x"
proof (induction x)
  case Nil
  show ?case by (simp add: toUpperCase_def js_def)
next
  case (Cons c x)
  from Cons.prems have c: "set (toUpperCase_unit c) \<subseteq> set (js error_loading_wordlist)"
    and x: "set (toUpperCase x) \<subseteq> set (js error_loading_wordlist)"
    by (simp_all add: toUpperCase_def)
  from toUpperCase_unit_in_sentinel[OF c] Cons.IH[OF x] show ?case
    by (simp add: toUpperCase_def js_def)
qed

lemma capitalize_word_suffix:
  assumes "suffix (capitalize_word cap w) (js error_loading_wordlist)"
  shows "suffix w error_loading_wordlist"
proof -
  have sub: "set (capitalize_word cap w) \<subseteq> set (js error_loading_wordlist)"
    using assms by (rule set_mono_suffix)
  have "capitalize_word cap w = js w"
  proof (cases "cap = ''first''")
    case True
    then have cw: "capitalize_word cap w = toUpperCase (take 1 w) @ js (drop 1 w)"
      by (simp add: capitalize_word_def)
    then have "set (toUpperCase (take 1 w)) \<subseteq> set (js error_loading_wordlist)"
      using sub by simp
    then have "toUpperCase (take 1 w) = js (take 1 w)" by (rule toUpperCase_in_sentinel)
    then have "capitalize_word cap w = js (take 1 w) @ js (drop 1 w)" using cw by simp
    also have "\<dots> = js (take 1 w @ drop 1 w)" by (simp only: js_append)
    also have "\<dots> = js w" by (simp only: append_take_drop_id)
    finally show ?thesis .
  next
    case False
    show ?thesis
    proof (cases "cap = ''all''")
      case True
      then have "capitalize_word cap w = toUpperCase w"
        using False by (simp add: capitalize_word_def)
      then show ?thesis using sub toUpperCase_in_sentinel by simp
    next
      case nall: False
      then show ?thesis using False by (simp add: capitalize_word_def)
    qed
  qed
  then show ?thesis using assms suffix_js by simp
qed

lemma number_not_suffix: "\<not> suffix (js (toString n)) (js error_loading_wordlist)"
proof
  assume "suffix (js (toString n)) (js error_loading_wordlist)"
  then have s: "suffix (toString n) error_loading_wordlist" by (rule suffix_js)
  have ne: "toString n \<noteq> []" by (rule toString_not_Nil)
  obtain zs where zs: "error_loading_wordlist = zs @ toString n" using s by (auto simp: suffix_def)
  have "last (zs @ toString n) = last (toString n)" using ne by (rule last_appendR)
  then have "last (toString n) = last error_loading_wordlist" using zs by simp
  then have "last (toString n) = CHR ''t''" by (simp add: error_loading_wordlist_def)
  moreover have "last (toString n) \<in> set (toString n)" using ne by simp
  ultimately show False using toString_chars[of "CHR ''t''" n] by simp
qed

lemma join_with_last_suffix: "ts \<noteq> [] \<Longrightarrow> suffix (last ts) (join_with sep ts)"
proof (induction sep ts rule: join_with.induct)
  case (1 sep)
  then show ?case by simp
next
  case (2 sep w)
  show ?case by simp
next
  case (3 sep w v ws)
  then have "suffix (last (v # ws)) (join_with sep (v # ws))" by simp
  then have "suffix (last (v # ws)) (w @ sep @ join_with sep (v # ws))"
    by (metis suffix_appendI)
  then show ?case by simp
qed

lemma passphrase_tokens_not_sentinel:
  assumes "ts \<noteq> []" and "\<forall>t \<in> set ts. \<not> suffix t (js error_loading_wordlist)"
  shows "join_with sep ts \<noteq> js error_loading_wordlist"
proof
  assume "join_with sep ts = js error_loading_wordlist"
  then have "suffix (last ts) (js error_loading_wordlist)"
    using join_with_last_suffix[OF assms(1), of sep] by simp
  moreover have "last ts \<in> set ts" using assms(1) by simp
  ultimately show False using assms(2) by blast
qed

lemma passphrase_not_sentinel:
  assumes wl: "wl \<noteq> []" "\<forall>w \<in> set wl. \<not> suffix w error_loading_wordlist"
    and gen: "generatePassphrase (Some wl) opts rs = Some (s, rs')"
  shows "s \<noteq> js error_loading_wordlist"
proof -
  obtain drawn rs1 where drawn: "draw_words (nat (wordCount opts)) wl rs = Some (drawn, rs1)"
    using gen wl(1) by (auto simp: generatePassphrase_def split: option.splits)
  let ?words = "map (capitalize_word (capitalize opts)) drawn"
  have mem: "set drawn \<subseteq> set wl" using draw_words_result[OF drawn wl(1)] by simp
  have words: "\<forall>t \<in> set ?words. \<not> suffix t (js error_loading_wordlist)"
  proof
    fix t assume "t \<in> set ?words"
    then obtain w where w: "w \<in> set drawn" and t: "t = capitalize_word (capitalize opts) w"
      by auto
    have "\<not> suffix w error_loading_wordlist" using w mem wl(2) by blast
    then show "\<not> suffix t (js error_loading_wordlist)"
      using capitalize_word_suffix t by blast
  qed
  have empty: "[] \<noteq> js error_loading_wordlist"
    by (simp add: js_def error_loading_wordlist_def)
  show ?thesis
  proof (cases "includeNumber opts")
    case False
    then have s: "s = join_with (js (separator opts)) ?words"
      using gen wl(1) drawn by (simp add: generatePassphrase_def)
    show ?thesis
    proof (cases "?words = []")
      case True
      then show ?thesis using s empty by simp
    next
      case nonempty: False
      show ?thesis unfolding s by (rule passphrase_tokens_not_sentinel[OF nonempty words])
    qed
  next
    case True
    then obtain position number where
      s: "s = join_with (js (separator opts))
              (take position ?words @ [js (toString number)] @ drop position ?words)"
      using gen wl(1) drawn
      by (auto simp: generatePassphrase_def Let_def split: option.splits)
    let ?ts = "take position ?words @ [js (toString number)] @ drop position ?words"
    have "\<forall>t \<in> set ?ts. \<not> suffix t (js error_loading_wordlist)"
    proof
      fix t assume "t \<in> set ?ts"
      then have "t \<in> set ?words \<or> t = js (toString number)"
        by (auto dest: in_set_takeD in_set_dropD)
      then show "\<not> suffix t (js error_loading_wordlist)"
        using words number_not_suffix by blast
    qed
    moreover have "?ts \<noteq> []" by simp
    ultimately show ?thesis unfolding s by (intro passphrase_tokens_not_sentinel)
  qed
qed

text \<open>
  C7, amended: if the word list is undefined or empty, \<open>generatePassphrase\<close> returns the
  sentinel \<open>error-loading-wordlist\<close> as an ordinary result, without drawing. If the list
  is present and no word of it is a suffix of the sentinel, the result is not the
  sentinel, whatever the word count, separator, capitalisation and number option are.
\<close>

theorem generatePassphrase_sentinel:
  "(wl = None \<or> wl = Some [] \<longrightarrow>
      generatePassphrase wl opts rs = Some (js error_loading_wordlist, rs))
   \<and> (wl = Some ws \<and> ws \<noteq> [] \<and> (\<forall>w \<in> set ws. \<not> suffix w error_loading_wordlist)
        \<and> generatePassphrase wl opts rs = Some (s, rs')
      \<longrightarrow> s \<noteq> js error_loading_wordlist)"
proof (intro conjI impI)
  assume "wl = None \<or> wl = Some []"
  then show "generatePassphrase wl opts rs = Some (js error_loading_wordlist, rs)"
    by (auto simp: generatePassphrase_def)
next
  assume a: "wl = Some ws \<and> ws \<noteq> [] \<and> (\<forall>w \<in> set ws. \<not> suffix w error_loading_wordlist)
        \<and> generatePassphrase wl opts rs = Some (s, rs')"
  then have wl: "wl = Some ws" and ws: "ws \<noteq> []" "\<forall>w \<in> set ws. \<not> suffix w error_loading_wordlist"
    and gen: "generatePassphrase wl opts rs = Some (s, rs')"
    by blast+
  show "s \<noteq> js error_loading_wordlist"
    using passphrase_not_sentinel[OF ws] gen wl by simp
qed

theorem generatePassphrase_sentinel_witness:
  "generatePassphrase None
     \<lparr>wordCount = 4, separator = ''-'', capitalize = ''none'', includeNumber = True\<rparr> [7]
     = Some (js error_loading_wordlist, [7])
   \<and> \<not> suffix ''error'' error_loading_wordlist \<and> \<not> suffix ''loading'' error_loading_wordlist
   \<and> generatePassphrase (Some [''error'', ''loading''])
     \<lparr>wordCount = 2, separator = ''-'', capitalize = ''none'', includeNumber = True\<rparr>
     [0, 1, 2, 42] = Some (js ''error-loading-42'', [])
   \<and> js ''error-loading-42'' \<noteq> js error_loading_wordlist"
proof -
  let ?opts = "\<lparr>wordCount = 4, separator = ''-'', capitalize = ''none'', includeNumber = True\<rparr>"
  let ?opts2 = "\<lparr>wordCount = 2, separator = ''-'', capitalize = ''none'', includeNumber = True\<rparr>"
  let ?wl = "[''error'', ''loading'']"
  have e: "generatePassphrase (Some ?wl) ?opts2 [0, 1, 2, 42] = Some (js ''error-loading-42'', [])"
    by code_simp
  have n: "\<not> suffix ''error'' error_loading_wordlist" "\<not> suffix ''loading'' error_loading_wordlist"
    by code_simp+
  have h: "Some ?wl = Some ?wl \<and> ?wl \<noteq> [] \<and> (\<forall>w \<in> set ?wl. \<not> suffix w error_loading_wordlist)
        \<and> generatePassphrase (Some ?wl) ?opts2 [0, 1, 2, 42] = Some (js ''error-loading-42'', [])"
    using e n by simp
  note t = generatePassphrase_sentinel [of None ?opts "[7]" ?wl "js ''error-loading-42''" "[]"]
  note u = generatePassphrase_sentinel
    [of "Some ?wl" ?opts2 "[0, 1, 2, 42]" ?wl "js ''error-loading-42''" "[]"]
  have 1: "generatePassphrase None ?opts [7] = Some (js error_loading_wordlist, [7])"
    using t[THEN conjunct1] by simp
  have 2: "js ''error-loading-42'' \<noteq> js error_loading_wordlist"
    using u[THEN conjunct2] h by (rule mp)
  show ?thesis by (intro conjI 1 n e 2)
qed

subsection \<open>Export\<close>

text \<open>
  C8 claims that the export, parsed back, yields the original sequence for every password
  the generator can emit, also one that contains the quote character. \<open>toCSV\<close> writes a
  password between two quotes and copies the quotes inside it as they are. With the
  custom symbol \<open>"\<close> the generator emits \<open>ab"c\<close>, and its row is \<open>1,"ab"c"\<close>: the quoted
  value ends at the inner quote. With a line feed among the custom symbols as well the
  generator emits the seven characters \<open>a " LF 2 , " b\<close>, and the export of this one
  password is the export of the two passwords \<open>a\<close> and \<open>b\<close>: no reader returns both
  sequences from the same text.
\<close>

theorem toCSV_does_not_escape_quotes:
  "generatePassword
     \<lparr>pw_length = 4, uppercase = False, lowercase = True, numbers = False, symbols = True,
      excludeAmbiguous = False, excludeBrackets = False, customSymbols = Some [double_quote],
      minNumbers = 0, minSymbols = 0, beginWithLetter = False, noRepeating = False\<rparr>
     [0, 1, 26, 2, 3, 2, 1]
     = Some (''ab'' @ [double_quote] @ ''c'', [])
   \<and> toCSV [''ab'' @ [double_quote] @ ''c'']
       = ''Index,Password'' @ [line_feed] @ ''1,'' @ [double_quote]
         @ ''ab'' @ [double_quote] @ ''c'' @ [double_quote]
   \<and> generatePassword
     \<lparr>pw_length = 7, uppercase = False, lowercase = True, numbers = True, symbols = True,
      excludeAmbiguous = False, excludeBrackets = False,
      customSymbols = Some [double_quote, line_feed, CHR '',''],
      minNumbers = 0, minSymbols = 0, beginWithLetter = False, noRepeating = False\<rparr>
     [0, 36, 37, 28, 38, 36, 1, 6, 5, 4, 3, 2, 1]
     = Some (''a'' @ [double_quote, line_feed] @ ''2,'' @ [double_quote] @ ''b'', [])
   \<and> toCSV [''a'' @ [double_quote, line_feed] @ ''2,'' @ [double_quote] @ ''b'']
       = toCSV [''a'', ''b'']
   \<and> [''a'' @ [double_quote, line_feed] @ ''2,'' @ [double_quote] @ ''b''] \<noteq> [''a'', ''b'']"
  by code_simp

subsection \<open>Strength levels\<close>

lemma level_UNIV: "(UNIV :: level set) = {WEAK, FAIR, GOOD, STRONG, VERY_STRONG}"
  using level.exhaust by auto

text \<open>
  C9: \<open>getStrengthLevel\<close> is monotone: for \<open>e1 \<le> e2\<close> the level of \<open>e1\<close> is at most the
  level of \<open>e2\<close> in the order Weak < Fair < Good < Strong < Very Strong; each of the
  five levels is the level of some entropy, and the five ranks are distinct.
\<close>

theorem getStrengthLevel_monotone:
  "(e1 \<le> e2 \<longrightarrow> level_rank (getStrengthLevel e1) \<le> level_rank (getStrengthLevel e2))
   \<and> range getStrengthLevel = UNIV
   \<and> card (UNIV :: level set) = 5
   \<and> inj level_rank"
proof (intro conjI)
  show "e1 \<le> e2 \<longrightarrow> level_rank (getStrengthLevel e1) \<le> level_rank (getStrengthLevel e2)"
    by (simp add: getStrengthLevel_def)
  have "getStrengthLevel 0 = WEAK" "getStrengthLevel 30 = FAIR" "getStrengthLevel 50 = GOOD"
    "getStrengthLevel 70 = STRONG" "getStrengthLevel 90 = VERY_STRONG"
    by (simp_all add: getStrengthLevel_def)
  then have "l \<in> range getStrengthLevel" for l
    by (cases l) (metis rangeI)+
  then show "range getStrengthLevel = UNIV" by auto
  show "card (UNIV :: level set) = 5"
    by (simp add: level_UNIV)
  show "inj level_rank"
  proof (rule injI)
    fix a b assume "level_rank a = level_rank b"
    then show "a = b" by (cases a; cases b) simp_all
  qed
qed

theorem getStrengthLevel_monotone_witness:
  "(29.9::real) \<le> 30 \<and> level_rank (getStrengthLevel 29.9) \<le> level_rank (getStrengthLevel 30)
   \<and> getStrengthLevel 29.9 = WEAK \<and> getStrengthLevel 30 = FAIR"
  using getStrengthLevel_monotone [of "29.9" 30] by (simp add: getStrengthLevel_def)

subsection \<open>Pool size\<close>

text \<open>
  The loop of \<open>calculatePoolSize\<close> computes the sum of the nominal sizes 26, 26, 10 and 32
  of the character classes that occur in the credential, and 1 for the empty credential.
\<close>

lemma class_disjoint:
  "is_lower c \<Longrightarrow> \<not> is_upper c" "is_lower c \<Longrightarrow> \<not> is_digit c" "is_upper c \<Longrightarrow> \<not> is_digit c"
  by (simp_all add: is_lower_def is_upper_def is_digit_def)

lemma fold_scan_char:
  "hasLower (fold scan_char pw f) \<longleftrightarrow> hasLower f \<or> (\<exists>c \<in> set pw. is_lower c)"
  "hasUpper (fold scan_char pw f) \<longleftrightarrow> hasUpper f \<or> (\<exists>c \<in> set pw. is_upper c)"
  "hasDigits (fold scan_char pw f) \<longleftrightarrow> hasDigits f \<or> (\<exists>c \<in> set pw. is_digit c)"
  "hasSymbols (fold scan_char pw f) \<longleftrightarrow>
     hasSymbols f \<or> (\<exists>c \<in> set pw. \<not> is_lower c \<and> \<not> is_upper c \<and> \<not> is_digit c)"
  by (induction pw arbitrary: f; auto simp: scan_char_def dest: class_disjoint)+

lemma calculatePoolSize_nominal: "calculatePoolSize pw = nominal_pool_size pw"
  by (simp add: calculatePoolSize_def nominal_pool_size_def fold_scan_char Let_def)

end
